theory Spec2Isabelle
  imports Main "HOL-Library.Word"
begin

unbundle bit_operations_syntax

section \<open>The framing codec of \<open>tcpproxy_server.cpp\<close>\<close>

text \<open>
  An \<open>unsigned char\<close> is an 8-bit word. A C buffer passed as pointer and length is the list
  of the bytes \<open>data[0..length)\<close>; a \<open>size_t\<close> length is a \<open>nat\<close> (the lengths here are
  bounded by the buffers, no arithmetic on them can wrap).
\<close>

type_synonym byte = "8 word"

definition kKey :: byte where
  "kKey = 42"

definition b64_terminator :: byte where
  "b64_terminator = 10"

subsection \<open>TurboBase64\<close>

text \<open>
  \<open>TurboBase64/turbob64.h\<close> is included by the source but is not part of it. The three names
  the source uses from it are modelled on character codes (\<open>nat\<close>), then lifted to bytes.
\<close>

definition b64_pad :: nat where
  "b64_pad = 61"

definition enc_char :: "nat \<Rightarrow> nat" where
  "enc_char i =
     (if i < 26 then 65 + i
      else if i < 52 then 71 + i
      else if i < 62 then i - 4
      else if i = 62 then 43
      else 47)"

definition dec_char :: "nat \<Rightarrow> nat option" where
  "dec_char c =
     (if 65 \<le> c \<and> c \<le> 90 then Some (c - 65)
      else if 97 \<le> c \<and> c \<le> 122 then Some (c - 71)
      else if 48 \<le> c \<and> c \<le> 57 then Some (c + 4)
      else if c = 43 then Some 62
      else if c = 47 then Some 63
      else None)"

fun b64_encode :: "nat list \<Rightarrow> nat list" where
  "b64_encode (a # b # c # rest) =
     enc_char (a div 4) # enc_char ((a mod 4) * 16 + b div 16) #
     enc_char ((b mod 16) * 4 + c div 64) # enc_char (c mod 64) # b64_encode rest"
| "b64_encode [a, b] =
     [enc_char (a div 4), enc_char ((a mod 4) * 16 + b div 16),
      enc_char ((b mod 16) * 4), b64_pad]"
| "b64_encode [a] = [enc_char (a div 4), enc_char ((a mod 4) * 16), b64_pad, b64_pad]"
| "b64_encode [] = []"

definition dec_quad :: "nat \<Rightarrow> nat \<Rightarrow> nat \<Rightarrow> nat \<Rightarrow> nat list option" where
  "dec_quad c0 c1 c2 c3 =
     (case (dec_char c0, dec_char c1, dec_char c2, dec_char c3) of
        (Some s0, Some s1, Some s2, Some s3) \<Rightarrow>
          Some [s0 * 4 + s1 div 16, (s1 mod 16) * 16 + s2 div 4, (s2 mod 4) * 64 + s3]
      | _ \<Rightarrow> None)"

definition dec_last :: "nat \<Rightarrow> nat \<Rightarrow> nat \<Rightarrow> nat \<Rightarrow> nat list option" where
  "dec_last c0 c1 c2 c3 =
     (if c3 = b64_pad then
        (if c2 = b64_pad then
           (case (dec_char c0, dec_char c1) of
              (Some s0, Some s1) \<Rightarrow> Some [s0 * 4 + s1 div 16]
            | _ \<Rightarrow> None)
         else
           (case (dec_char c0, dec_char c1, dec_char c2) of
              (Some s0, Some s1, Some s2) \<Rightarrow>
                Some [s0 * 4 + s1 div 16, (s1 mod 16) * 16 + s2 div 4]
            | _ \<Rightarrow> None))
      else dec_quad c0 c1 c2 c3)"

fun b64_decode :: "nat list \<Rightarrow> nat list option" where
  "b64_decode (c0 # c1 # c2 # c3 # rest) =
     (if rest = [] then dec_last c0 c1 c2 c3
      else (case dec_quad c0 c1 c2 c3 of None \<Rightarrow> None
            | Some bs \<Rightarrow> (case b64_decode rest of None \<Rightarrow> None
                          | Some bs' \<Rightarrow> Some (bs @ bs'))))"
| "b64_decode [] = Some []"
| "b64_decode _ = None"

text \<open>
  Modelled from the spec: \<open>tb64enc\<close> of TurboBase64, which is not in the source. The spec gives
  it "Base64 semantics: 3 raw bytes \<rightarrow> 4 output characters, padding rules per standard
  Base64", "standard alphabet, with padding". The C function writes the characters to its
  output buffer and returns their number; the model returns the characters, and the returned
  number is their \<open>length\<close>.
\<close>

definition tb64enc :: "byte list \<Rightarrow> byte list" where
  "tb64enc data = map of_nat (b64_encode (map unat data))"

text \<open>
  Modelled from the spec: \<open>tb64dec\<close> of TurboBase64, which is not in the source: "the inverse
  Base64 transform", which reports length zero on failure ("malformed Base64, zero-length
  result"). The model accepts exactly the padded standard form: a multiple of four characters
  of the alphabet, padding only at the end of the last group. A rejected input gives no bytes.
\<close>

definition tb64dec :: "byte list \<Rightarrow> byte list" where
  "tb64dec data =
     (case b64_decode (map unat data) of None \<Rightarrow> [] | Some bs \<Rightarrow> map of_nat bs)"

text \<open>
  Modelled from the spec: the macro \<open>TB64ENCLEN\<close> of TurboBase64, which is not in the source:
  the "worst-case expansion factor of the encoding", four characters for every started group
  of three bytes.
\<close>

definition TB64ENCLEN :: "nat \<Rightarrow> nat" where
  "TB64ENCLEN n = (n + 2) div 3 * 4"

subsection \<open>\<open>encrypt\<close> and \<open>decrypt\<close>\<close>

definition max_data_length :: nat where
  "max_data_length = 8192"

definition max_encoded_data_length :: nat where
  "max_encoded_data_length = TB64ENCLEN max_data_length + 1"

text \<open>
  \<open>encrypt\<close> XORs \<open>data\<close> in place, so the model returns the changed \<open>data\<close> as well; the
  second component is \<open>None\<close> where the C function returns \<open>false\<close>, and otherwise the
  \<open>processed_length\<close> bytes written to \<open>processed\<close>.
\<close>

definition encrypt :: "byte list \<Rightarrow> byte list \<times> byte list option" where
  "encrypt data =
     (let data' = map (\<lambda>b. b XOR kKey) data;
          processed = tb64enc data';
          processed_length = length processed
      in if processed_length \<le> 0 then (data', None)
         else (data', Some (processed @ [b64_terminator])))"

text \<open>
  \<open>decrypt\<close> leaves \<open>data\<close> alone. \<open>data ! (length data - 1)\<close> is read only after the length
  was found to be nonzero.
\<close>

definition decrypt :: "byte list \<Rightarrow> byte list option" where
  "decrypt data =
     (if length data = 0 then None
      else let length' = length data - 1
           in if data ! length' \<noteq> b64_terminator then None
              else let processed = tb64dec (take length' data);
                       processed_length = length processed
                   in if processed_length \<le> 0 then None
                      else Some (map (\<lambda>b. b XOR kKey) processed))"

section \<open>The bridge\<close>

text \<open>
  A socket is known to the program by whether it is open; \<open>closes\<close> counts the calls of
  \<open>close()\<close> made on it, so that a call that is skipped can be told from one that is made.
\<close>

record socket_type =
  is_open :: bool
  closes :: nat

definition socket_close :: "socket_type \<Rightarrow> socket_type" where
  "socket_close s = s\<lparr>is_open := False, closes := Suc (closes s)\<rparr>"

definition socket_open :: "socket_type \<Rightarrow> socket_type" where
  "socket_open s = s\<lparr>is_open := True\<rparr>"

datatype endpoint = Downstream | Upstream

text \<open>
  The asynchronous operations the bridge starts, one constructor for each call site; each is
  bound to the handler that runs when it completes:
  \<^item> \<open>Async_connect\<close>: \<open>upstream_socket_.async_connect\<close>, bound to \<open>handle_upstream_connect\<close>;
  \<^item> \<open>Async_read_until\<close>: \<open>async_read_until\<close> on the ciphertext socket up to
    \<open>b64_terminator\<close>, bound to \<open>handle_ciphertext_read\<close>;
  \<^item> \<open>Async_read_some\<close>: \<open>async_read_some\<close> on the plaintext socket into a buffer of the
    given size, bound to \<open>handle_plaintext_read\<close>;
  \<^item> \<open>Async_write_plaintext\<close>: \<open>async_write\<close> of the bytes to the plaintext socket, bound to
    \<open>handle_plaintext_write\<close>;
  \<^item> \<open>Async_write_ciphertext\<close>: \<open>async_write\<close> of the bytes to the ciphertext socket, bound
    to \<open>handle_ciphertext_write\<close>.
\<close>

datatype async_op =
    Async_connect
  | Async_read_until endpoint
  | Async_read_some endpoint nat
  | Async_write_plaintext endpoint "byte list"
  | Async_write_ciphertext endpoint "byte list"

text \<open>
  The members of \<open>bridge\<close>. \<open>pending\<close> holds the operations that were started and have not
  completed; each of them keeps the bridge alive (\<open>shared_from_this\<close>), so a bridge with nothing
  pending that the acceptor does not hold is destroyed. The four arrays are lists that start
  empty (in C++ their first content is indeterminate and is never read before it is written).
  \<open>plaintext_data_\<close> and \<open>plaintext_encoded_data_\<close> are only written within their sizes:
  every read into the first is started with \<open>max_data_length\<close>, and the frame of that many
  bytes fits the second. \<open>ciphertext_data_\<close> and \<open>ciphertext_decoded_data_\<close> can be written past
  their end; the model keeps in each what fits, and \<open>overrun\<close> records that bytes went past
  the end of one of them. From that point the C++ program has undefined behaviour.
\<close>

record bridge =
  downstream_socket :: socket_type
  upstream_socket :: socket_type
  ciphertext_buffer :: "byte list"
  plaintext_data :: "byte list"
  plaintext_encoded_data :: "byte list"
  ciphertext_data :: "byte list"
  ciphertext_decoded_data :: "byte list"
  overrun :: bool
  pending :: "async_op list"

definition new_socket :: socket_type where
  "new_socket = \<lparr>is_open = False, closes = 0\<rparr>"

definition new_bridge :: bridge where
  "new_bridge =
     \<lparr>downstream_socket = new_socket, upstream_socket = new_socket,
      ciphertext_buffer = [], plaintext_data = [], plaintext_encoded_data = [],
      ciphertext_data = [], ciphertext_decoded_data = [], overrun = False, pending = []\<rparr>"

text \<open>The two accessors return one of the two sockets; the model returns which one.\<close>

definition ciphertext_socket :: "bool \<Rightarrow> endpoint" where
  "ciphertext_socket g_encode = (if g_encode then Upstream else Downstream)"

definition plaintext_socket :: "bool \<Rightarrow> endpoint" where
  "plaintext_socket g_encode = (if g_encode then Downstream else Upstream)"

definition post :: "async_op \<Rightarrow> bridge \<Rightarrow> bridge" where
  "post op b = b\<lparr>pending := pending b @ [op]\<rparr>"

definition unpost :: "async_op \<Rightarrow> bridge \<Rightarrow> bridge" where
  "unpost op b = b\<lparr>pending := remove1 op (pending b)\<rparr>"

text \<open>Writing \<open>bytes\<close> to the start of an array.\<close>

definition store :: "byte list \<Rightarrow> byte list \<Rightarrow> byte list" where
  "store buf bytes = bytes @ drop (length bytes) buf"

text \<open>The same for an array of \<open>n\<close> bytes: what is left of it after the write.\<close>

definition store_array :: "nat \<Rightarrow> byte list \<Rightarrow> byte list \<Rightarrow> byte list" where
  "store_array n buf bytes = take n (store buf bytes)"

definition close :: "bridge \<Rightarrow> bridge" where
  "close b =
     (let b1 = (if is_open (downstream_socket b)
                then b\<lparr>downstream_socket := socket_close (downstream_socket b)\<rparr> else b);
          b2 = (if is_open (upstream_socket b1)
                then b1\<lparr>upstream_socket := socket_close (upstream_socket b1)\<rparr> else b1)
      in b2)"

text \<open>
  \<open>async_connect\<close> opens the socket it is called on. The upstream host is taken to be an
  address literal that \<open>from_string\<close> accepts.
\<close>

definition start :: "bridge \<Rightarrow> bridge" where
  "start b = post Async_connect (b\<lparr>upstream_socket := socket_open (upstream_socket b)\<rparr>)"

definition handle_upstream_connect :: "bool \<Rightarrow> bool \<Rightarrow> bridge \<Rightarrow> bridge" where
  "handle_upstream_connect g_encode error b =
     (if \<not> error then
        post (Async_read_some (plaintext_socket g_encode) max_data_length)
          (post (Async_read_until (ciphertext_socket g_encode)) b)
      else close b)"

text \<open>
  \<open>std::istream(&ciphertext_buffer_).read(dst, n)\<close>: with \<open>n\<close> bytes in the buffer it takes
  them and succeeds; with fewer it takes what there is and fails.
\<close>

definition istream_read :: "byte list \<Rightarrow> nat \<Rightarrow> bool \<times> byte list \<times> byte list" where
  "istream_read buf n =
     (if n \<le> length buf then (True, take n buf, drop n buf) else (False, buf, []))"

text \<open>
  Section A. After the size check there is no \<open>return\<close>: the stream is read and the \<open>if\<close>
  chain that follows runs whether or not \<open>close()\<close> was called.

  \<open>read\<close> copies the bytes it took to \<open>ciphertext_data_\<close>, an array of
  \<open>max_encoded_data_length\<close> bytes. More bytes than that go past its end. If \<open>read\<close> failed,
  the handler calls \<open>close()\<close> without looking at them. If it succeeded, \<open>decrypt\<close> is called
  next and reads them where they went, which is also where \<open>tb64dec\<close> writes: its result is
  not determined by the source, and the model follows the handler no further (\<open>overrun\<close> is
  set, nothing is started). \<open>decrypt\<close> itself writes to \<open>ciphertext_decoded_data_\<close>, an array
  of \<open>max_data_length\<close> bytes; when it produced more, \<open>overrun\<close> is set and the write that
  the handler starts next is that of all the bytes produced.
\<close>

definition handle_ciphertext_read :: "bool \<Rightarrow> bool \<Rightarrow> nat \<Rightarrow> bridge \<Rightarrow> bridge" where
  "handle_ciphertext_read g_encode error bytes_transferred b =
     (if \<not> error then
        (let b1 = (if bytes_transferred > max_encoded_data_length then close b else b);
             (ok, got, rest) = istream_read (ciphertext_buffer b1) bytes_transferred;
             b2 = b1\<lparr>ciphertext_buffer := rest,
                     ciphertext_data :=
                       store_array max_encoded_data_length (ciphertext_data b1) got,
                     overrun := (overrun b1 \<or> max_encoded_data_length < length got)\<rparr>
         in if \<not> ok then close b2
            else if max_encoded_data_length < length got then b2
            else (case decrypt (take bytes_transferred (ciphertext_data b2)) of
                    None \<Rightarrow> close b2
                  | Some bytes \<Rightarrow>
                      post (Async_write_plaintext (plaintext_socket g_encode) bytes)
                        (b2\<lparr>ciphertext_decoded_data :=
                               store_array max_data_length (ciphertext_decoded_data b2) bytes,
                             overrun := (overrun b2 \<or> max_data_length < length bytes)\<rparr>)))
      else close b)"

definition handle_plaintext_write :: "bool \<Rightarrow> bool \<Rightarrow> bridge \<Rightarrow> bridge" where
  "handle_plaintext_write g_encode error b =
     (if \<not> error then post (Async_read_until (ciphertext_socket g_encode)) b
      else close b)"

text \<open>Section B.\<close>

definition handle_plaintext_read :: "bool \<Rightarrow> bool \<Rightarrow> nat \<Rightarrow> bridge \<Rightarrow> bridge" where
  "handle_plaintext_read g_encode error bytes_transferred b =
     (if \<not> error then
        (let (data', result) = encrypt (take bytes_transferred (plaintext_data b));
             b1 = b\<lparr>plaintext_data := store (plaintext_data b) data'\<rparr>
         in (case result of
               None \<Rightarrow> close b1
             | Some frame \<Rightarrow>
                 post (Async_write_ciphertext (ciphertext_socket g_encode) frame)
                   (b1\<lparr>plaintext_encoded_data := store (plaintext_encoded_data b1) frame\<rparr>)))
      else close b)"

definition handle_ciphertext_write :: "bool \<Rightarrow> bool \<Rightarrow> bridge \<Rightarrow> bridge" where
  "handle_ciphertext_write g_encode error b =
     (if \<not> error then
        post (Async_read_some (plaintext_socket g_encode) max_data_length) b
      else close b)"

subsection \<open>Completion of an operation\<close>

text \<open>
  When an operation completes, the reactor calls the handler bound to it with the error
  flag. A read has put the bytes it received where the operation said: \<open>async_read_until\<close>
  appends them to the stream buffer and reports a count \<open>n\<close>, \<open>async_read_some\<close> writes at most
  the buffer size to \<open>plaintext_data_\<close> and reports how many. The count of \<open>async_read_until\<close>
  is left free here.
\<close>

fun complete :: "bool \<Rightarrow> async_op \<Rightarrow> bool \<Rightarrow> byte list \<Rightarrow> nat \<Rightarrow> bridge \<Rightarrow> bridge" where
  "complete g Async_connect error received n b = handle_upstream_connect g error b"
| "complete g (Async_read_until s) error received n b =
     handle_ciphertext_read g error n (b\<lparr>ciphertext_buffer := ciphertext_buffer b @ received\<rparr>)"
| "complete g (Async_read_some s cap) error received n b =
     handle_plaintext_read g error (length (take cap received))
       (b\<lparr>plaintext_data := store (plaintext_data b) (take cap received)\<rparr>)"
| "complete g (Async_write_plaintext s bytes) error received n b =
     handle_plaintext_write g error b"
| "complete g (Async_write_ciphertext s bytes) error received n b =
     handle_ciphertext_write g error b"

fun in_pipeline_A :: "async_op \<Rightarrow> bool" where
  "in_pipeline_A (Async_read_until s) = True"
| "in_pipeline_A (Async_write_plaintext s bytes) = True"
| "in_pipeline_A _ = False"

fun in_pipeline_B :: "async_op \<Rightarrow> bool" where
  "in_pipeline_B (Async_read_some s cap) = True"
| "in_pipeline_B (Async_write_ciphertext s bytes) = True"
| "in_pipeline_B _ = False"

definition in_flight :: "(async_op \<Rightarrow> bool) \<Rightarrow> bridge \<Rightarrow> nat" where
  "in_flight P b = length (filter P (pending b))"

section \<open>The acceptor and the process\<close>

text \<open>
  The state of the process: the global \<open>g_encode\<close>, the bridges that were allocated (a
  \<open>shared_ptr\<close> is the index of its bridge here), the acceptor's \<open>session_\<close> and whether an
  \<open>async_accept\<close> is outstanding.
\<close>

record proxy =
  g_encode :: bool
  bridges :: "bridge list"
  session :: "nat option"
  accepting :: bool

text \<open>
  \<open>accept_connections\<close> catches \<open>std::exception\<close>: the outcome says whether \<open>new bridge\<close> threw
  (before \<open>session_\<close> was assigned), \<open>async_accept\<close> threw, or neither. The result is paired
  with the returned flag.
\<close>

datatype accept_outcome = Accept_ok | New_throws | Async_accept_throws

definition accept_connections :: "accept_outcome \<Rightarrow> proxy \<Rightarrow> proxy \<times> bool" where
  "accept_connections outcome p =
     (case outcome of
        New_throws \<Rightarrow> (p, False)
      | Async_accept_throws \<Rightarrow>
          (p\<lparr>bridges := bridges p @ [new_bridge], session := Some (length (bridges p))\<rparr>, False)
      | Accept_ok \<Rightarrow>
          (p\<lparr>bridges := bridges p @ [new_bridge], session := Some (length (bridges p)),
             accepting := True\<rparr>, True))"

text \<open>
  \<open>handle_accept\<close> is reached only from an \<open>async_accept\<close> that \<open>accept_connections\<close> started
  after assigning \<open>session_\<close>; with \<open>session_\<close> null the model leaves the state alone.
\<close>

definition handle_accept :: "bool \<Rightarrow> accept_outcome \<Rightarrow> proxy \<Rightarrow> proxy" where
  "handle_accept error outcome p =
     (if \<not> error then
        (case session p of
           None \<Rightarrow> p
         | Some i \<Rightarrow>
             fst (accept_connections outcome
                    (p\<lparr>bridges := (bridges p)[i := start (bridges p ! i)]\<rparr>)))
      else p)"

text \<open>
  \<open>main\<close> after its arguments were read: \<open>g_encode\<close> is set, the acceptor is made and
  \<open>accept_connections\<close> is called once; then the reactor runs.
\<close>

definition main :: "bool \<Rightarrow> accept_outcome \<Rightarrow> proxy" where
  "main encode outcome =
     fst (accept_connections outcome
            \<lparr>g_encode = encode, bridges = [], session = None, accepting = False\<rparr>)"

text \<open>
  What the reactor does: an accept completes (a successful one has opened the downstream
  socket of the session's bridge), or an operation of the bridge at index \<open>i\<close> completes.
\<close>

datatype event =
    Accept_done bool accept_outcome
  | Bridge_done nat async_op bool "byte list" nat

fun enabled :: "event \<Rightarrow> proxy \<Rightarrow> bool" where
  "enabled (Accept_done error outcome) p = accepting p"
| "enabled (Bridge_done i op error received n) p =
     (i < length (bridges p) \<and> op \<in> set (pending (bridges p ! i)))"

definition accepted :: "bridge \<Rightarrow> bridge" where
  "accepted b = b\<lparr>downstream_socket := socket_open (downstream_socket b)\<rparr>"

fun step :: "event \<Rightarrow> proxy \<Rightarrow> proxy" where
  "step (Accept_done error outcome) p =
     handle_accept error outcome
       (case session p of
          None \<Rightarrow> p\<lparr>accepting := False\<rparr>
        | Some i \<Rightarrow>
            p\<lparr>accepting := False,
              bridges := (if error then bridges p
                          else (bridges p)[i := accepted (bridges p ! i)])\<rparr>)"
| "step (Bridge_done i op error received n) p =
     p\<lparr>bridges := (bridges p)[i := complete (g_encode p) op error received n
                                     (unpost op (bridges p ! i))]\<rparr>"

fun run :: "event list \<Rightarrow> proxy \<Rightarrow> proxy option" where
  "run [] p = Some p"
| "run (e # es) p = (if enabled e p then run es (step e p) else None)"

text \<open>The codec composed with itself, as two proxies facing each other apply it.\<close>

definition roundtrip :: "byte list \<Rightarrow> byte list option" where
  "roundtrip p = (case snd (encrypt p) of None \<Rightarrow> None | Some frame \<Rightarrow> decrypt frame)"

text \<open>
  A frame of 10929 bytes, the encoding of 8196 zero bytes, in the stream buffer of a bridge
  whose two sockets are open.
\<close>

definition oversized_frame :: "byte list" where
  "oversized_frame = tb64enc (replicate 8196 kKey) @ [b64_terminator]"

definition oversized_bridge :: bridge where
  "oversized_bridge =
     new_bridge\<lparr>downstream_socket := socket_open new_socket,
                upstream_socket := socket_open new_socket,
                ciphertext_buffer := oversized_frame\<rparr>"

section \<open>Invariants of the running process\<close>

text \<open>
  A bridge whose connect is outstanding: accepted, started, nothing read or written yet; and
  the same bridge after \<open>close()\<close>.
\<close>

definition connecting_bridge :: bridge where
  "connecting_bridge = start (accepted new_bridge)"

definition failed_bridge :: bridge where
  "failed_bridge =
     new_bridge\<lparr>downstream_socket := \<lparr>is_open = False, closes = 1\<rparr>,
                upstream_socket := \<lparr>is_open = False, closes = 1\<rparr>\<rparr>"

definition bridge_inv :: "bridge \<Rightarrow> bool" where
  "bridge_inv b \<longleftrightarrow>
     (Async_connect \<in> set (pending b) \<longrightarrow> b = connecting_bridge)
     \<and> in_flight in_pipeline_A b \<le> 1 \<and> in_flight in_pipeline_B b \<le> 1"

definition proxy_inv :: "proxy \<Rightarrow> bool" where
  "proxy_inv p \<longleftrightarrow>
     (\<forall>b \<in> set (bridges p). bridge_inv b)
     \<and> (accepting p \<longrightarrow>
          (case session p of None \<Rightarrow> False
           | Some i \<Rightarrow> i < length (bridges p) \<and> bridges p ! i = new_bridge))"


section \<open>Base64: decoding undoes encoding\<close>

lemma enc_char_lt: "enc_char i < 256"
  by (auto simp: enc_char_def)

lemma enc_char_not_newline: "enc_char i \<noteq> 10"
  by (auto simp: enc_char_def)

lemma dec_enc_char: "i < 64 \<Longrightarrow> dec_char (enc_char i) = Some i"
  by (auto simp: dec_char_def enc_char_def)

lemma enc_char_not_pad: "enc_char i \<noteq> b64_pad"
  by (auto simp: enc_char_def b64_pad_def)

lemma join_div: "r < n \<Longrightarrow> (x * n + r) div n = (x::nat)"
  by simp

lemma join_mod: "r < n \<Longrightarrow> (x * n + r) mod n = (r::nat)"
  by simp

lemma join_bound:
  assumes "x < m" "r < n"
  shows "x * n + r < m * (n::nat)"
proof -
  have "x * n + r < Suc x * n" using assms(2) by simp
  also have "\<dots> \<le> m * n" using assms(1) by (intro mult_le_mono1) simp
  finally show ?thesis .
qed

lemma byte_div16: "b < 256 \<Longrightarrow> b div 16 < (16::nat)"
  by (simp add: less_mult_imp_div_less)

lemma byte_div64: "c < 256 \<Longrightarrow> c div 64 < (4::nat)"
  by (simp add: less_mult_imp_div_less)

lemma byte_div4: "a < 256 \<Longrightarrow> a div 4 < (64::nat)"
  by (simp add: less_mult_imp_div_less)

lemma sextet1:
  assumes "b < 256"
  shows "(a mod 4) * 16 + b div 16 < (64::nat)"
    and "a div 4 * 4 + ((a mod 4) * 16 + b div 16) div 16 = a"
    and "((a mod 4) * 16 + b div 16) mod 16 = b div 16"
proof -
  have q: "b div 16 < 16" by (rule byte_div16[OF assms])
  show "(a mod 4) * 16 + b div 16 < (64::nat)"
    using join_bound[of "a mod 4" 4 "b div 16" 16] q by simp
  show "a div 4 * 4 + ((a mod 4) * 16 + b div 16) div 16 = a"
    by (simp only: join_div[OF q] div_mult_mod_eq)
  show "((a mod 4) * 16 + b div 16) mod 16 = b div 16"
    by (rule join_mod[OF q])
qed

lemma sextet2:
  assumes "c < 256"
  shows "(b mod 16) * 4 + c div 64 < (64::nat)"
    and "((b mod 16) * 4 + c div 64) div 4 = b mod 16"
    and "((b mod 16) * 4 + c div 64) mod 4 = c div 64"
proof -
  have q: "c div 64 < 4" by (rule byte_div64[OF assms])
  show "(b mod 16) * 4 + c div 64 < (64::nat)"
    using join_bound[of "b mod 16" 16 "c div 64" 4] q by simp
  show "((b mod 16) * 4 + c div 64) div 4 = b mod 16"
    by (rule join_div[OF q])
  show "((b mod 16) * 4 + c div 64) mod 4 = c div 64"
    by (rule join_mod[OF q])
qed

lemma sextet2_pad:
  shows "(b mod 16) * 4 < (64::nat)" and "((b mod 16) * 4) div 4 = b mod 16"
proof -
  show "(b mod 16) * 4 < (64::nat)"
    using join_bound[of "b mod 16" 16 0 4] by simp
  show "((b mod 16) * 4) div 4 = b mod 16" by simp
qed

lemma sextet1_pad:
  shows "(a mod 4) * 16 < (64::nat)" and "a div 4 * 4 + ((a mod 4) * 16) div 16 = (a::nat)"
proof -
  show "(a mod 4) * 16 < (64::nat)"
    using join_bound[of "a mod 4" 4 0 16] by simp
  show "a div 4 * 4 + ((a mod 4) * 16) div 16 = a" by simp
qed

lemma dec_quad_enc:
  assumes "a < 256" "b < 256" "c < 256"
  shows "dec_quad (enc_char (a div 4)) (enc_char ((a mod 4) * 16 + b div 16))
           (enc_char ((b mod 16) * 4 + c div 64)) (enc_char (c mod 64)) = Some [a, b, c]"
proof -
  have s3: "c mod 64 < 64" by simp
  show ?thesis
    unfolding dec_quad_def
    by (simp only: dec_enc_char[OF byte_div4[OF assms(1)]] dec_enc_char[OF sextet1(1)[OF assms(2)]]
          dec_enc_char[OF sextet2(1)[OF assms(3)]] dec_enc_char[OF s3]
          option.case prod.case sextet1(2,3)[OF assms(2)] sextet2(2,3)[OF assms(3)]
          div_mult_mod_eq)
qed

lemma dec_last_enc3:
  assumes "a < 256" "b < 256" "c < 256"
  shows "dec_last (enc_char (a div 4)) (enc_char ((a mod 4) * 16 + b div 16))
           (enc_char ((b mod 16) * 4 + c div 64)) (enc_char (c mod 64)) = Some [a, b, c]"
  unfolding dec_last_def
  by (simp only: enc_char_not_pad if_False dec_quad_enc[OF assms])

lemma dec_last_enc2:
  assumes "a < 256" "b < 256"
  shows "dec_last (enc_char (a div 4)) (enc_char ((a mod 4) * 16 + b div 16))
           (enc_char ((b mod 16) * 4)) b64_pad = Some [a, b]"
  unfolding dec_last_def
  by (simp only: dec_enc_char[OF byte_div4[OF assms(1)]] dec_enc_char[OF sextet1(1)[OF assms(2)]]
        dec_enc_char[OF sextet2_pad(1)] option.case prod.case sextet1(2,3)[OF assms(2)]
        sextet2_pad(2) div_mult_mod_eq enc_char_not_pad if_True if_False refl)

lemma dec_last_enc1:
  assumes "a < 256"
  shows "dec_last (enc_char (a div 4)) (enc_char ((a mod 4) * 16)) b64_pad b64_pad = Some [a]"
  unfolding dec_last_def
  by (simp only: dec_enc_char[OF byte_div4[OF assms]] dec_enc_char[OF sextet1_pad(1)]
        option.case prod.case sextet1_pad(2) if_True refl)

lemma b64_encode_Nil_iff: "b64_encode xs = [] \<longleftrightarrow> xs = []"
  by (induction xs rule: b64_encode.induct) simp_all

lemma b64_decode_encode:
  "\<forall>x\<in>set xs. x < 256 \<Longrightarrow> b64_decode (b64_encode xs) = Some xs"
proof (induction xs rule: b64_encode.induct)
  case (1 a b c rest)
  then have abc: "a < 256" "b < 256" "c < 256" and r: "\<forall>x\<in>set rest. x < 256" by simp_all
  show ?case
  proof (cases "rest = []")
    case True
    then show ?thesis using dec_last_enc3[OF abc] by simp
  next
    case False
    then have "b64_encode rest \<noteq> []" by (simp add: b64_encode_Nil_iff)
    then show ?thesis using dec_quad_enc[OF abc] "1.IH"[OF r] by simp
  qed
next
  case (2 a b)
  then show ?case using dec_last_enc2[of a b] by simp
next
  case (3 a)
  then show ?case using dec_last_enc1[of a] by simp
next
  case 4
  then show ?case by simp
qed

lemma b64_encode_chars: "c \<in> set (b64_encode xs) \<Longrightarrow> c < 256 \<and> c \<noteq> 10"
  by (induction xs rule: b64_encode.induct)
     (auto simp: enc_char_lt enc_char_not_newline b64_pad_def)

lemma TB64ENCLEN_step: "TB64ENCLEN (Suc (Suc (Suc n))) = TB64ENCLEN n + 4"
proof -
  have "Suc (Suc (Suc n)) + 2 = n + 2 + 3" by simp
  then have "(Suc (Suc (Suc n)) + 2) div 3 = (n + 2 + 3) div 3" by (rule arg_cong)
  also have "\<dots> = (n + 2) div 3 + 1" by (rule div_add_self2) simp
  finally show ?thesis unfolding TB64ENCLEN_def by simp
qed

lemma length_b64_encode: "length (b64_encode xs) = TB64ENCLEN (length xs)"
proof (induction xs rule: b64_encode.induct)
  case (1 a b c rest)
  then show ?case by (simp add: TB64ENCLEN_step)
qed (simp_all add: TB64ENCLEN_def)

lemma map_unat_of_nat: "\<forall>c\<in>set cs. c < 256 \<Longrightarrow> map unat (map of_nat cs :: byte list) = cs"
  by (induction cs) (simp_all add: unat_of_nat)

lemma map_of_nat_unat: "map of_nat (map unat (bs :: byte list)) = bs"
  by (induction bs) simp_all

lemma unat_byte_lt: "\<forall>x\<in>set (map unat (bs :: byte list)). x < 256"
proof
  fix x assume "x \<in> set (map unat bs)"
  then obtain b :: byte where "x = unat b" by auto
  then show "x < 256" using unsigned_less[of b, where 'a=nat] by simp
qed

lemma tb64dec_tb64enc: "tb64dec (tb64enc data) = data"
proof -
  have "map unat (tb64enc data) = b64_encode (map unat data)"
    unfolding tb64enc_def by (rule map_unat_of_nat) (auto dest: b64_encode_chars)
  then show ?thesis
    unfolding tb64dec_def
    by (simp only: b64_decode_encode[OF unat_byte_lt] option.case map_of_nat_unat)
qed

lemma length_tb64enc: "length (tb64enc data) = TB64ENCLEN (length data)"
  by (simp add: tb64enc_def length_b64_encode)

lemma tb64enc_Nil_iff: "tb64enc data = [] \<longleftrightarrow> data = []"
  by (simp add: tb64enc_def b64_encode_Nil_iff)

lemma terminator_notin_tb64enc: "b64_terminator \<notin> set (tb64enc data)"
proof
  assume "b64_terminator \<in> set (tb64enc data)"
  then obtain c where c: "c \<in> set (b64_encode (map unat data))" and e: "(of_nat c :: byte) = 10"
    by (auto simp: tb64enc_def b64_terminator_def)
  from c have "c < 256" "c \<noteq> 10" using b64_encode_chars by blast+
  moreover from e have "unat (of_nat c :: byte) = 10" by simp
  ultimately show False by (simp add: unat_of_nat)
qed

lemma xor_kKey_comp: "(\<lambda>b. b XOR kKey) \<circ> (\<lambda>b. b XOR kKey) = id"
  by (rule ext) (simp add: xor.assoc)

section \<open>The codec\<close>

lemma fst_encrypt: "fst (encrypt p) = map (\<lambda>b. b XOR kKey) p"
  by (simp add: encrypt_def Let_def)

lemma snd_encrypt:
  "snd (encrypt p) =
     (if p = [] then None else Some (tb64enc (map (\<lambda>b. b XOR kKey) p) @ [b64_terminator]))"
  by (simp add: encrypt_def Let_def tb64enc_Nil_iff)

lemma decrypt_snoc:
  "decrypt (cs @ [b64_terminator]) =
     (if tb64dec cs = [] then None else Some (map (\<lambda>b. b XOR kKey) (tb64dec cs)))"
  by (simp add: decrypt_def Let_def)

lemma roundtrip_nonempty: "p \<noteq> [] \<Longrightarrow> roundtrip p = Some p"
  by (simp add: roundtrip_def snd_encrypt decrypt_snoc tb64dec_tb64enc xor_kKey_comp)

lemma encrypt_hi: "snd (encrypt [104, 105]) = Some [81, 107, 77, 61, 10]"
  by (simp add: encrypt_def tb64enc_def enc_char_def kKey_def b64_terminator_def b64_pad_def)

lemma length_oversized_frame: "length oversized_frame = 10929"
proof -
  have "length oversized_frame = Suc (TB64ENCLEN 8196)"
    by (simp only: oversized_frame_def length_append length_tb64enc length_replicate
          list.size add_Suc_right add_0_right One_nat_def)
  then show ?thesis by (simp add: TB64ENCLEN_def)
qed

lemma max_encoded_data_length_value: "max_encoded_data_length = 10925"
  by (simp add: max_encoded_data_length_def max_data_length_def TB64ENCLEN_def)

lemma xor_zeros: "map (\<lambda>b. b XOR kKey) (replicate n (0 :: byte)) = replicate n kKey"
  by (simp only: map_replicate xor.left_neutral)

text \<open>
  C2, as the source has it. For every byte sequence \<open>p\<close> with
  \<open>1 \<le> length p \<le> max_data_length\<close>, \<open>encrypt\<close> succeeds, \<open>decrypt\<close> of the frame it made
  succeeds and gives back exactly \<open>p\<close>, and the XOR that \<open>encrypt\<close> left in \<open>data\<close> is undone by
  a second XOR with the key. The empty sequence is not part of this: \<open>encrypt\<close> returns
  \<open>false\<close> on it, since \<open>tb64enc\<close> then reports length zero.
\<close>

theorem round_trip:
  assumes "1 \<le> length p" and "length p \<le> max_data_length"
  shows "snd (encrypt p) \<noteq> None \<and> roundtrip p = Some p
         \<and> map (\<lambda>b. b XOR kKey) (fst (encrypt p)) = p"
proof -
  from assms(1) have "p \<noteq> []" by auto
  then show ?thesis
    by (simp add: roundtrip_nonempty snd_encrypt fst_encrypt xor_kKey_comp)
qed

theorem round_trip_witness:
  "1 \<le> length [104, 105 :: byte] \<and> length [104, 105 :: byte] \<le> max_data_length
   \<and> snd (encrypt [104, 105]) = Some [81, 107, 77, 61, 10]
   \<and> decrypt [81, 107, 77, 61, 10] = Some [104, 105]
   \<and> roundtrip [104, 105] = Some [104, 105]"
proof -
  have l: "1 \<le> length [104, 105 :: byte]" "length [104, 105 :: byte] \<le> max_data_length"
    by (simp_all add: max_data_length_def)
  show ?thesis using round_trip[OF l] l encrypt_hi by (simp add: roundtrip_def)
qed

text \<open>
  C2 as stated includes the empty sequence, and fails there: the length 0 is within the
  bound, and the round trip of \<open>[]\<close> does not give \<open>[]\<close> back, because encoding it fails.
\<close>

theorem round_trip_empty_counterexample:
  "length ([] :: byte list) \<le> max_data_length \<and> roundtrip [] \<noteq> Some []"
  by (simp add: roundtrip_def snd_encrypt)

text \<open>
  C3, as the source has it. \<open>encrypt\<close> has no check of the length against any capacity: it
  returns \<open>false\<close> exactly when the length is 0, and succeeds on every other input, whatever
  its length.
\<close>

theorem encrypt_fails_only_on_empty: "snd (encrypt p) = None \<longleftrightarrow> length p = 0"
  by (simp add: snd_encrypt)

text \<open>
  C3 as stated fails on 8196 bytes: that is more than \<open>max_data_length\<close>, the frame that
  \<open>encrypt\<close> returns for them is longer than \<open>max_encoded_data_length\<close>, and \<open>encrypt\<close> still
  succeeds.
\<close>

theorem encrypt_accepts_overlong_counterexample:
  "max_data_length < length (replicate 8196 (0 :: byte))
   \<and> snd (encrypt (replicate 8196 0)) = Some oversized_frame
   \<and> max_encoded_data_length < length oversized_frame"
proof -
  have n: "replicate 8196 (0 :: byte) \<noteq> []"
    by (simp only: replicate_empty)
  have e: "snd (encrypt (replicate 8196 0)) = Some oversized_frame"
    by (simp only: snd_encrypt n if_False xor_zeros oversized_frame_def)
  show ?thesis
    using e length_oversized_frame max_encoded_data_length_value
    by (simp only: length_replicate max_data_length_def) simp
qed

text \<open>
  C4. \<open>decrypt\<close> returns \<open>false\<close> exactly when the length is 0, or the last byte of the frame
  is not \<open>b64_terminator\<close>, or \<open>tb64dec\<close> of the frame without its last byte reports a length
  that is zero (a \<open>size_t\<close> is never negative); in every other case it succeeds with the
  bytes \<open>tb64dec\<close> produced, each XORed with \<open>kKey\<close>. This holds whatever \<open>tb64dec\<close> computes.
\<close>

theorem decrypt_fails_exactly:
  "(decrypt frame = None \<longleftrightarrow>
      (length frame = 0 \<or> frame ! (length frame - 1) \<noteq> b64_terminator
       \<or> length (tb64dec (take (length frame - 1) frame)) \<le> 0))
   \<and> (decrypt frame \<noteq> None \<longrightarrow>
        decrypt frame =
          Some (map (\<lambda>b. b XOR kKey) (tb64dec (take (length frame - 1) frame))))"
  by (simp add: decrypt_def Let_def)

theorem decrypt_fails_exactly_witness:
  "decrypt [81, 107, 77, 61, 10] \<noteq> None
   \<and> decrypt [81, 107, 77, 61, 10] = Some [104, 105]
   \<and> tb64dec [81, 107, 77, 61] = [66, 67]
   \<and> decrypt [81, 107, 77, 61] = None
   \<and> decrypt [81, 107, 77, 10] = None"
proof -
  have d: "tb64dec [81, 107, 77, 61] = [66, 67]"
    by (simp add: tb64dec_def dec_last_def dec_char_def b64_pad_def)
  have d2: "tb64dec [81, 107, 77] = []"
    by (simp add: tb64dec_def)
  show ?thesis
    using decrypt_fails_exactly[of "[81, 107, 77, 61, 10]"]
      decrypt_fails_exactly[of "[81, 107, 77, 61]"]
      decrypt_fails_exactly[of "[81, 107, 77, 10]"] d d2
    by (simp add: b64_terminator_def kKey_def)
qed

text \<open>
  C5. Whenever \<open>encrypt\<close> succeeds, the frame it produced ends with \<open>b64_terminator\<close>, and that
  byte occurs at no earlier position of the frame: the Base64 alphabet and its padding
  character do not contain the newline.
\<close>

theorem frame_ends_with_only_terminator:
  assumes "snd (encrypt p) = Some frame"
  shows "frame \<noteq> [] \<and> last frame = b64_terminator \<and> b64_terminator \<notin> set (butlast frame)"
proof -
  from assms have "frame = tb64enc (map (\<lambda>b. b XOR kKey) p) @ [b64_terminator]"
    by (simp add: snd_encrypt split: if_splits)
  then show ?thesis by (simp add: terminator_notin_tb64enc)
qed

theorem frame_ends_with_only_terminator_witness:
  "snd (encrypt [104, 105]) = Some [81, 107, 77, 61, 10]
   \<and> last [81, 107, 77, 61, 10 :: byte] = b64_terminator
   \<and> b64_terminator \<notin> set (butlast [81, 107, 77, 61, 10 :: byte])"
  using frame_ends_with_only_terminator[OF encrypt_hi] encrypt_hi by simp

section \<open>The bridge and the acceptor\<close>

lemma pending_close: "pending (close b) = pending b"
  by (simp add: close_def Let_def)

lemma close_sockets:
  "\<not> is_open (downstream_socket (close b))" "\<not> is_open (upstream_socket (close b))"
  by (simp_all add: close_def Let_def socket_close_def)

lemma close_closed:
  "\<not> is_open (downstream_socket b) \<Longrightarrow> \<not> is_open (upstream_socket b) \<Longrightarrow> close b = b"
  by (simp add: close_def Let_def)

lemma close_close: "close (close b) = close b"
  by (rule close_closed) (rule close_sockets)+

lemma close_funpow: "(close ^^ Suc n) b = close b"
  by (induction n) (simp_all add: close_close)

lemma close_leaves_downstream:
  "\<not> is_open (downstream_socket b) \<Longrightarrow> downstream_socket (close b) = downstream_socket b"
  by (simp add: close_def Let_def)

lemma close_leaves_upstream:
  "\<not> is_open (upstream_socket b) \<Longrightarrow> upstream_socket (close b) = upstream_socket b"
  by (simp add: close_def Let_def)

lemma store_Nil: "store buf [] = buf"
  by (simp add: store_def)

text \<open>
  C6. \<open>close\<close> is idempotent: after one or more calls, from any state, both sockets are
  closed and the state is that after a single call; a socket that is already closed is left
  exactly as it was (\<open>close()\<close> is not called on it, so nothing can be raised for it). The
  error branch of a handler of either pipeline is this \<open>close\<close>.
\<close>

theorem close_idempotent:
  "\<not> is_open (downstream_socket ((close ^^ Suc n) b))
   \<and> \<not> is_open (upstream_socket ((close ^^ Suc n) b))
   \<and> (close ^^ Suc n) b = close b
   \<and> (\<not> is_open (downstream_socket b) \<longrightarrow> downstream_socket (close b) = downstream_socket b)
   \<and> (\<not> is_open (upstream_socket b) \<longrightarrow> upstream_socket (close b) = upstream_socket b)
   \<and> handle_plaintext_write g True b = close b
   \<and> handle_ciphertext_write g True b = close b"
  by (simp only: close_funpow close_sockets handle_plaintext_write_def
        handle_ciphertext_write_def)
     (simp add: close_leaves_downstream close_leaves_upstream)

theorem close_idempotent_witness:
  "\<not> is_open (downstream_socket new_bridge)
   \<and> downstream_socket (close new_bridge) = new_socket
   \<and> (close ^^ 3) (accepted new_bridge)
       = new_bridge\<lparr>downstream_socket := \<lparr>is_open = False, closes = 1\<rparr>\<rparr>
   \<and> close (accepted new_bridge)
       = new_bridge\<lparr>downstream_socket := \<lparr>is_open = False, closes = 1\<rparr>\<rparr>"
proof -
  have c: "close (accepted new_bridge)
       = new_bridge\<lparr>downstream_socket := \<lparr>is_open = False, closes = 1\<rparr>\<rparr>"
    by (simp add: close_def accepted_def new_bridge_def new_socket_def socket_open_def
          socket_close_def)
  have n: "\<not> is_open (downstream_socket new_bridge)"
    by (simp add: new_bridge_def new_socket_def)
  have e: "(3::nat) = Suc 2" by simp
  show ?thesis
    using close_idempotent[of 2 "accepted new_bridge"] close_idempotent[of 0 new_bridge] c n
    by (simp only: e) (simp add: new_bridge_def)
qed

text \<open>
  C10. \<open>encrypt\<close> of no bytes returns \<open>false\<close>, since \<open>tb64enc\<close> then reports length zero. So
  when the read from the plaintext socket completes without error and with zero bytes,
  \<open>handle_plaintext_read\<close> does what \<open>close\<close> does: both sockets are closed and no write is
  started.
\<close>

theorem empty_read_closes_bridge:
  "snd (encrypt []) = None
   \<and> handle_plaintext_read g False 0 b = close b
   \<and> complete g (Async_read_some s cap) False [] n b = close b
   \<and> \<not> is_open (downstream_socket (handle_plaintext_read g False 0 b))
   \<and> \<not> is_open (upstream_socket (handle_plaintext_read g False 0 b))
   \<and> pending (handle_plaintext_read g False 0 b) = pending b"
proof -
  have e: "encrypt [] = ([], None)"
    by (simp add: encrypt_def tb64enc_def)
  have h: "handle_plaintext_read g False 0 b = close b"
    by (simp add: handle_plaintext_read_def e store_Nil)
  show ?thesis
    by (simp add: h e store_Nil close_sockets pending_close)
qed

lemma encrypt_fits:
  assumes "length p \<le> max_data_length" and "snd (encrypt p) = Some frame"
  shows "length frame \<le> max_encoded_data_length"
proof -
  from assms(2) have "frame = tb64enc (map (\<lambda>b. b XOR kKey) p) @ [b64_terminator]"
    by (simp add: snd_encrypt split: if_splits)
  then have l: "length frame = TB64ENCLEN (length p) + 1"
    by (simp add: length_tb64enc)
  have "(length p + 2) div 3 \<le> (max_data_length + 2) div 3"
    using assms(1) by (intro div_le_mono) simp
  then have "TB64ENCLEN (length p) \<le> TB64ENCLEN max_data_length"
    unfolding TB64ENCLEN_def by (rule mult_le_mono1)
  then show ?thesis by (simp add: l max_encoded_data_length_def)
qed

text \<open>
  C1 says that a frame longer than \<open>max_encoded_data_length\<close> is not processed once it was
  found too long. In the source, \<open>handle_ciphertext_read\<close> calls \<open>close()\<close> and goes on. At the
  frame of 10929 bytes (the limit is 10925), \<open>close()\<close> alone would leave the frame in the
  stream buffer and the arrays untouched. The handler closes both sockets, then takes the
  whole frame out of the stream buffer and copies it to \<open>ciphertext_data_\<close>, past the end of
  the array.
\<close>

theorem oversized_frame_read_after_close:
  "max_encoded_data_length < length oversized_frame
   \<and> close oversized_bridge = failed_bridge\<lparr>ciphertext_buffer := oversized_frame\<rparr>
   \<and> handle_ciphertext_read False False (length oversized_frame) oversized_bridge
       = failed_bridge\<lparr>ciphertext_buffer := [],
                       ciphertext_data := take max_encoded_data_length oversized_frame,
                       overrun := True\<rparr>"
proof -
  have l: "max_encoded_data_length < length oversized_frame"
    by (simp only: length_oversized_frame max_encoded_data_length_value)
  have c: "close oversized_bridge = failed_bridge\<lparr>ciphertext_buffer := oversized_frame\<rparr>"
    by (simp add: close_def oversized_bridge_def failed_bridge_def new_bridge_def new_socket_def
          socket_open_def socket_close_def)
  have r: "istream_read oversized_frame (length oversized_frame) = (True, oversized_frame, [])"
    by (simp add: istream_read_def)
  have s: "store_array max_encoded_data_length [] oversized_frame
             = take max_encoded_data_length oversized_frame"
    by (simp add: store_array_def store_def)
  have h: "handle_ciphertext_read False False (length oversized_frame) oversized_bridge
       = failed_bridge\<lparr>ciphertext_buffer := [],
                       ciphertext_data := take max_encoded_data_length oversized_frame,
                       overrun := True\<rparr>"
    unfolding handle_ciphertext_read_def
    apply (simp only: l c if_True if_False not_False_eq_True Let_def)
    apply (simp only: failed_bridge_def new_bridge_def bridge.simps r prod.case s l
          if_True if_False simp_thms)
    done
  show ?thesis using l c h by (simp only: simp_thms)
qed

lemma g_encode_accept_connections: "g_encode (fst (accept_connections outcome p)) = g_encode p"
  by (cases outcome) (simp_all add: accept_connections_def)

lemma g_encode_handle_accept: "g_encode (handle_accept error outcome p) = g_encode p"
  by (simp add: handle_accept_def g_encode_accept_connections split: option.splits)

lemma g_encode_step: "g_encode (step e p) = g_encode p"
  by (cases e) (simp_all add: g_encode_handle_accept split: option.splits)

lemma g_encode_run: "run es p = Some p' \<Longrightarrow> g_encode p' = g_encode p"
  by (induction es arbitrary: p) (simp_all add: g_encode_step split: if_splits)

text \<open>
  C8. The ciphertext socket is the upstream socket when \<open>g_encode\<close> is set and the downstream
  socket otherwise, the plaintext socket is the other one, for every bridge alike; \<open>main\<close>
  sets the flag, and nothing that happens afterwards changes it, so the two sides stay what
  they were.
\<close>

theorem sides_resolved_from_flag:
  "ciphertext_socket (g_encode p) = (if g_encode p then Upstream else Downstream)
   \<and> plaintext_socket (g_encode p) = (if g_encode p then Downstream else Upstream)
   \<and> plaintext_socket (g_encode p) \<noteq> ciphertext_socket (g_encode p)
   \<and> g_encode (main encode outcome) = encode
   \<and> (run es p = Some p' \<longrightarrow>
        ciphertext_socket (g_encode p') = ciphertext_socket (g_encode p)
        \<and> plaintext_socket (g_encode p') = plaintext_socket (g_encode p))"
  by (auto simp: ciphertext_socket_def plaintext_socket_def main_def
        g_encode_accept_connections dest: g_encode_run)

lemma pending_connecting: "pending connecting_bridge = [Async_connect]"
  by (simp add: connecting_bridge_def start_def post_def accepted_def new_bridge_def)

lemma in_flight_append:
  "pending b' = pending b @ ops \<Longrightarrow> in_flight P b' = in_flight P b + length (filter P ops)"
  by (simp add: in_flight_def)

lemma complete_connect:
  "\<exists>ops. pending (complete g Async_connect e r n b) = pending b @ ops
     \<and> length (filter in_pipeline_A ops) \<le> 1 \<and> length (filter in_pipeline_B ops) \<le> 1
     \<and> Async_connect \<notin> set ops"
  by (simp add: handle_upstream_connect_def post_def pending_close)

lemma pending_handle_ciphertext_read:
  "\<exists>ops. pending (handle_ciphertext_read g e n b) = pending b @ ops
     \<and> length (filter in_pipeline_A ops) \<le> 1 \<and> filter in_pipeline_B ops = []
     \<and> Async_connect \<notin> set ops"
  by (simp add: handle_ciphertext_read_def Let_def post_def pending_close
        split: prod.splits option.splits)

lemma pending_handle_plaintext_read:
  "\<exists>ops. pending (handle_plaintext_read g e n b) = pending b @ ops
     \<and> length (filter in_pipeline_B ops) \<le> 1 \<and> filter in_pipeline_A ops = []
     \<and> Async_connect \<notin> set ops"
  by (simp add: handle_plaintext_read_def Let_def post_def pending_close
        split: prod.splits option.splits)

lemma complete_A:
  "in_pipeline_A op \<Longrightarrow>
   \<exists>ops. pending (complete g op e r n b) = pending b @ ops
     \<and> length (filter in_pipeline_A ops) \<le> 1 \<and> filter in_pipeline_B ops = []
     \<and> Async_connect \<notin> set ops"
proof (cases op)
  case (Async_read_until s)
  show ?thesis
    using pending_handle_ciphertext_read[of g e n "b\<lparr>ciphertext_buffer := ciphertext_buffer b @ r\<rparr>"]
    by (simp add: Async_read_until)
next
  case (Async_write_plaintext s bytes)
  then show ?thesis by (simp add: handle_plaintext_write_def post_def pending_close)
qed simp_all

lemma complete_B:
  "in_pipeline_B op \<Longrightarrow>
   \<exists>ops. pending (complete g op e r n b) = pending b @ ops
     \<and> length (filter in_pipeline_B ops) \<le> 1 \<and> filter in_pipeline_A ops = []
     \<and> Async_connect \<notin> set ops"
proof (cases op)
  case (Async_read_some s cap)
  show ?thesis
    using pending_handle_plaintext_read[of g e "length (take cap r)"
        "b\<lparr>plaintext_data := store (plaintext_data b) (take cap r)\<rparr>"]
    by (simp add: Async_read_some)
next
  case (Async_write_ciphertext s bytes)
  then show ?thesis by (simp add: handle_ciphertext_write_def post_def pending_close)
qed simp_all

lemma in_flight_unpost_in:
  "op \<in> set (pending b) \<Longrightarrow> P op \<Longrightarrow> in_flight P (unpost op b) = in_flight P b - 1"
  by (simp add: in_flight_def unpost_def filter_remove1 length_remove1)

lemma in_flight_unpost_out: "\<not> P op \<Longrightarrow> in_flight P (unpost op b) = in_flight P b"
proof -
  assume "\<not> P op"
  then have "op \<notin> set (filter P (pending b))" by simp
  then show ?thesis
    by (simp add: in_flight_def unpost_def filter_remove1 remove1_idem del: set_filter)
qed

lemma in_pipeline_cases:
  "op = Async_connect \<and> \<not> in_pipeline_A op \<and> \<not> in_pipeline_B op
   \<or> in_pipeline_A op \<and> \<not> in_pipeline_B op \<and> op \<noteq> Async_connect
   \<or> in_pipeline_B op \<and> \<not> in_pipeline_A op \<and> op \<noteq> Async_connect"
  by (cases op) simp_all

lemma set_pending_unpost: "set (pending (unpost op b)) \<subseteq> set (pending b)"
  by (simp add: unpost_def set_remove1_subset)

lemma bridge_inv_complete:
  assumes inv: "bridge_inv b" and op: "op \<in> set (pending b)"
  shows "bridge_inv (complete g op e r n (unpost op b))"
proof -
  let ?u = "unpost op b"
  let ?c = "complete g op e r n ?u"
  from in_pipeline_cases[of op] show ?thesis
  proof (elim disjE conjE)
    assume c: "op = Async_connect"
    with inv op have "b = connecting_bridge" by (simp add: bridge_inv_def)
    then have pu: "pending ?u = []" using c by (simp add: unpost_def pending_connecting)
    from complete_connect[of g e r n ?u] obtain ops where
      "pending ?c = pending ?u @ ops" "length (filter in_pipeline_A ops) \<le> 1"
      "length (filter in_pipeline_B ops) \<le> 1" "Async_connect \<notin> set ops"
      unfolding c by blast
    then show ?thesis using pu by (simp add: bridge_inv_def in_flight_def)
  next
    assume a: "in_pipeline_A op" "\<not> in_pipeline_B op" "op \<noteq> Async_connect"
    have nc: "Async_connect \<notin> set (pending b)"
    proof
      assume "Async_connect \<in> set (pending b)"
      with inv have "pending b = [Async_connect]" by (simp add: bridge_inv_def pending_connecting)
      with op a(3) show False by simp
    qed
    then have ncu: "Async_connect \<notin> set (pending ?u)" using set_pending_unpost by blast
    have ua: "in_flight in_pipeline_A ?u = 0"
      using inv op a(1) by (simp add: in_flight_unpost_in bridge_inv_def)
    have ub: "in_flight in_pipeline_B ?u \<le> 1"
      using inv a(2) by (simp add: in_flight_unpost_out bridge_inv_def)
    from complete_A[OF a(1), of g e r n ?u] obtain ops where
      p: "pending ?c = pending ?u @ ops" and "length (filter in_pipeline_A ops) \<le> 1"
      "filter in_pipeline_B ops = []" "Async_connect \<notin> set ops"
      by blast
    then show ?thesis
      using ua ub ncu by (simp add: bridge_inv_def in_flight_append[OF p])
  next
    assume a: "in_pipeline_B op" "\<not> in_pipeline_A op" "op \<noteq> Async_connect"
    have nc: "Async_connect \<notin> set (pending b)"
    proof
      assume "Async_connect \<in> set (pending b)"
      with inv have "pending b = [Async_connect]" by (simp add: bridge_inv_def pending_connecting)
      with op a(3) show False by simp
    qed
    then have ncu: "Async_connect \<notin> set (pending ?u)" using set_pending_unpost by blast
    have ub: "in_flight in_pipeline_B ?u = 0"
      using inv op a(1) by (simp add: in_flight_unpost_in bridge_inv_def)
    have ua: "in_flight in_pipeline_A ?u \<le> 1"
      using inv a(2) by (simp add: in_flight_unpost_out bridge_inv_def)
    from complete_B[OF a(1), of g e r n ?u] obtain ops where
      p: "pending ?c = pending ?u @ ops" and "length (filter in_pipeline_B ops) \<le> 1"
      "filter in_pipeline_A ops = []" "Async_connect \<notin> set ops"
      by blast
    then show ?thesis
      using ua ub ncu by (simp add: bridge_inv_def in_flight_append[OF p])
  qed
qed

lemma bridge_inv_new: "bridge_inv new_bridge"
  by (simp add: bridge_inv_def new_bridge_def in_flight_def)

lemma bridge_inv_connecting: "bridge_inv connecting_bridge"
  by (simp add: bridge_inv_def pending_connecting in_flight_def)

lemma proxy_inv_accept_connections:
  assumes "\<forall>b \<in> set (bridges p). bridge_inv b" and "\<not> accepting p"
  shows "proxy_inv (fst (accept_connections outcome p))"
  using assms
  by (cases outcome) (auto simp: accept_connections_def proxy_inv_def bridge_inv_new nth_append)

lemma proxy_inv_main: "proxy_inv (main encode outcome)"
  unfolding main_def by (rule proxy_inv_accept_connections) simp_all

lemma set_update_inv:
  "\<forall>b \<in> set bs. P b \<Longrightarrow> P x \<Longrightarrow> \<forall>b \<in> set (bs[i := x]). P b"
  by (metis insert_iff set_update_subset_insert subsetD)

lemma proxy_inv_step:
  assumes inv: "proxy_inv p" and en: "enabled e p"
  shows "proxy_inv (step e p)"
proof (cases e)
  case (Accept_done error outcome)
  with en have acc: "accepting p" by simp
  with inv obtain i where i: "session p = Some i" "i < length (bridges p)"
      "bridges p ! i = new_bridge"
    by (auto simp: proxy_inv_def split: option.splits)
  from inv have all: "\<forall>b \<in> set (bridges p). bridge_inv b" by (simp add: proxy_inv_def)
  show ?thesis
  proof (cases error)
    case True
    then show ?thesis
      using all by (simp add: Accept_done i handle_accept_def proxy_inv_def)
  next
    case False
    let ?q = "p\<lparr>accepting := False, bridges := (bridges p)[i := connecting_bridge]\<rparr>"
    have s: "step e p = fst (accept_connections outcome ?q)"
      using False i by (simp add: Accept_done handle_accept_def connecting_bridge_def)
    have "\<forall>b \<in> set (bridges ?q). bridge_inv b"
      using set_update_inv[OF all bridge_inv_connecting] by simp
    then show ?thesis unfolding s by (rule proxy_inv_accept_connections) simp
  qed
next
  case (Bridge_done i op error received n)
  with en have i: "i < length (bridges p)" and op: "op \<in> set (pending (bridges p ! i))"
    by simp_all
  from inv have all: "\<forall>b \<in> set (bridges p). bridge_inv b" by (simp add: proxy_inv_def)
  with i have "bridge_inv (bridges p ! i)" by simp
  from bridge_inv_complete[OF this op]
  have c: "bridge_inv (complete (g_encode p) op error received n (unpost op (bridges p ! i)))" .
  have a: "\<forall>b \<in> set (bridges (step e p)). bridge_inv b"
    using set_update_inv[OF all c] by (simp add: Bridge_done)
  have "\<exists>k. session p = Some k \<and> k < length (bridges p) \<and> bridges (step e p) ! k = new_bridge"
    if acc: "accepting p"
  proof -
    from inv acc obtain k where k: "session p = Some k" "k < length (bridges p)"
        "bridges p ! k = new_bridge"
      by (auto simp: proxy_inv_def split: option.splits)
    with op have "k \<noteq> i" by (auto simp: new_bridge_def)
    with k show ?thesis by (auto simp: Bridge_done)
  qed
  with a show ?thesis by (auto simp: proxy_inv_def Bridge_done)
qed

lemma proxy_inv_run: "proxy_inv p \<Longrightarrow> run es p = Some p' \<Longrightarrow> proxy_inv p'"
proof (induction es arbitrary: p)
  case Nil
  then show ?case by simp
next
  case (Cons e es)
  from Cons.prems(2) have en: "enabled e p" and r: "run es (step e p) = Some p'"
    by (simp_all split: if_splits)
  from Cons.IH[OF proxy_inv_step[OF Cons.prems(1) en] r] show ?case .
qed

text \<open>
  C9. In every state the process can reach, every bridge has at most one operation of
  pipeline A (the read from the ciphertext socket or the write to the plaintext socket)
  started and not completed, and at most one of pipeline B. So in a pipeline a read is never
  started while the write before it is outstanding, nor a write while a read is.
\<close>

theorem pipelines_sequential:
  assumes "run es (main encode outcome) = Some p" and "b \<in> set (bridges p)"
  shows "in_flight in_pipeline_A b \<le> 1 \<and> in_flight in_pipeline_B b \<le> 1"
proof -
  have "proxy_inv p" using proxy_inv_run[OF proxy_inv_main assms(1)] .
  with assms(2) have "bridge_inv b" by (simp add: proxy_inv_def)
  then show ?thesis by (simp add: bridge_inv_def)
qed

lemma close_connecting: "close (unpost Async_connect connecting_bridge) = failed_bridge"
  by (simp add: connecting_bridge_def failed_bridge_def start_def post_def unpost_def
        accepted_def new_bridge_def new_socket_def socket_open_def socket_close_def close_def)

text \<open>
  C7. When the connect of a bridge completes with an error, in any state the process can
  reach, that bridge becomes \<open>failed_bridge\<close>: both sockets closed, every buffer still empty,
  nothing pending (no second connect, no read, no write), so no handler runs on it again.
  The other bridges and the acceptor are untouched: the accept that was outstanding still
  is, and when it completes the acceptor starts the next one.
\<close>

theorem connect_failure_closes_bridge:
  assumes "run es (main encode outcome) = Some p"
    and "enabled (Bridge_done i Async_connect True received n) p"
  shows "bridges (step (Bridge_done i Async_connect True received n) p)
           = (bridges p)[i := failed_bridge]
         \<and> pending failed_bridge = []
         \<and> \<not> is_open (downstream_socket failed_bridge)
         \<and> \<not> is_open (upstream_socket failed_bridge)
         \<and> session (step (Bridge_done i Async_connect True received n) p) = session p
         \<and> accepting (step (Bridge_done i Async_connect True received n) p) = accepting p
         \<and> (accepting p \<longrightarrow>
              accepting (step (Accept_done False Accept_ok)
                           (step (Bridge_done i Async_connect True received n) p)))"
proof -
  have inv: "proxy_inv p" using proxy_inv_run[OF proxy_inv_main assms(1)] .
  from assms(2) have i: "i < length (bridges p)"
    and op: "Async_connect \<in> set (pending (bridges p ! i))" by simp_all
  from inv i have "bridge_inv (bridges p ! i)" by (simp add: proxy_inv_def)
  with op have b: "bridges p ! i = connecting_bridge" by (simp add: bridge_inv_def)
  have s: "step (Bridge_done i Async_connect True received n) p
             = p\<lparr>bridges := (bridges p)[i := failed_bridge]\<rparr>"
    by (simp add: b handle_upstream_connect_def close_connecting)
  have f: "pending failed_bridge = []" "\<not> is_open (downstream_socket failed_bridge)"
      "\<not> is_open (upstream_socket failed_bridge)"
    by (simp_all add: failed_bridge_def new_bridge_def)
  have "accepting (step (Accept_done False Accept_ok) (p\<lparr>bridges := (bridges p)[i := failed_bridge]\<rparr>))"
    if "accepting p"
  proof -
    from inv that obtain k where "session p = Some k"
      by (auto simp: proxy_inv_def split: option.splits)
    then show ?thesis by (simp add: handle_accept_def accept_connections_def)
  qed
  then show ?thesis unfolding s using f by simp
qed

lemma decrypt_hi: "decrypt [81, 107, 77, 61, 10] = Some [104, 105]"
  by (simp add: decrypt_def tb64dec_def dec_last_def dec_char_def kKey_def b64_terminator_def
        b64_pad_def)

lemmas model_simps =
  main_def accept_connections_def handle_accept_def start_def post_def unpost_def accepted_def
  socket_open_def socket_close_def close_def handle_upstream_connect_def
  handle_ciphertext_read_def handle_plaintext_write_def istream_read_def store_def
  ciphertext_socket_def plaintext_socket_def

lemma run_accept:
  "run [Accept_done False Accept_ok] (main encode Accept_ok)
     = Some \<lparr>g_encode = encode, bridges = [connecting_bridge, new_bridge], session = Some 1,
             accepting = True\<rparr>"
  by (simp add: model_simps connecting_bridge_def)

lemma run_accept_connect_read:
  "run [Accept_done False Accept_ok, Bridge_done 0 Async_connect False [] 0,
        Bridge_done 0 (Async_read_until Downstream) False [81, 107, 77, 61, 10] 5]
     (main False Accept_ok)
     = Some \<lparr>g_encode = False,
             bridges = [new_bridge\<lparr>downstream_socket := socket_open new_socket,
                                   upstream_socket := socket_open new_socket,
                                   ciphertext_data := [81, 107, 77, 61, 10],
                                   ciphertext_decoded_data := [104, 105],
                                   pending := [Async_read_some Upstream max_data_length,
                                               Async_write_plaintext Upstream [104, 105]]\<rparr>,
                        new_bridge],
             session = Some 1, accepting = True\<rparr>"
  by (simp add: model_simps store_array_def decrypt_hi new_bridge_def
        max_encoded_data_length_value max_data_length_def)

theorem pipelines_sequential_witness:
  "run [Accept_done False Accept_ok, Bridge_done 0 Async_connect False [] 0,
        Bridge_done 0 (Async_read_until Downstream) False [81, 107, 77, 61, 10] 5]
     (main False Accept_ok) \<noteq> None
   \<and> pending (bridges (the (run [Accept_done False Accept_ok,
        Bridge_done 0 Async_connect False [] 0,
        Bridge_done 0 (Async_read_until Downstream) False [81, 107, 77, 61, 10] 5]
        (main False Accept_ok))) ! 0)
      = [Async_read_some Upstream max_data_length, Async_write_plaintext Upstream [104, 105]]
   \<and> in_flight in_pipeline_A (bridges (the (run [Accept_done False Accept_ok,
        Bridge_done 0 Async_connect False [] 0,
        Bridge_done 0 (Async_read_until Downstream) False [81, 107, 77, 61, 10] 5]
        (main False Accept_ok))) ! 0) \<le> 1
   \<and> in_flight in_pipeline_B (bridges (the (run [Accept_done False Accept_ok,
        Bridge_done 0 Async_connect False [] 0,
        Bridge_done 0 (Async_read_until Downstream) False [81, 107, 77, 61, 10] 5]
        (main False Accept_ok))) ! 0) \<le> 1"
proof -
  let ?b = "new_bridge\<lparr>downstream_socket := socket_open new_socket,
                  upstream_socket := socket_open new_socket,
                  ciphertext_data := [81, 107, 77, 61, 10],
                  ciphertext_decoded_data := [104, 105],
                  pending := [Async_read_some Upstream max_data_length,
                              Async_write_plaintext Upstream [104, 105]]\<rparr>"
  let ?p = "\<lparr>g_encode = False, bridges = [?b, new_bridge], session = Some 1,
             accepting = True\<rparr>"
  have m: "?b \<in> set (bridges ?p)" by simp
  have "in_flight in_pipeline_A ?b \<le> 1 \<and> in_flight in_pipeline_B ?b \<le> 1"
    using pipelines_sequential[OF run_accept_connect_read m] .
  then show ?thesis
    unfolding run_accept_connect_read by simp
qed

theorem connect_failure_closes_bridge_witness:
  "run [Accept_done False Accept_ok] (main False Accept_ok) \<noteq> None
   \<and> enabled (Bridge_done 0 Async_connect True [] 0)
       (the (run [Accept_done False Accept_ok] (main False Accept_ok)))
   \<and> step (Bridge_done 0 Async_connect True [] 0)
       (the (run [Accept_done False Accept_ok] (main False Accept_ok)))
     = \<lparr>g_encode = False, bridges = [failed_bridge, new_bridge], session = Some 1,
        accepting = True\<rparr>"
proof -
  let ?p = "\<lparr>g_encode = False, bridges = [connecting_bridge, new_bridge], session = Some 1,
             accepting = True\<rparr>"
  have e: "enabled (Bridge_done 0 Async_connect True [] 0) ?p"
    by (simp add: pending_connecting)
  have r: "run [Accept_done False Accept_ok] (main False Accept_ok) = Some ?p"
    by (rule run_accept)
  have "bridges (step (Bridge_done 0 Async_connect True [] 0) ?p)
          = (bridges ?p)[0 := failed_bridge]"
    using connect_failure_closes_bridge[OF r e] by blast
  then show ?thesis
    unfolding r using e by simp
qed

theorem sides_resolved_from_flag_witness:
  "run [Accept_done False Accept_ok] (main True Accept_ok) \<noteq> None
   \<and> ciphertext_socket (g_encode (the (run [Accept_done False Accept_ok] (main True Accept_ok))))
       = Upstream
   \<and> plaintext_socket (g_encode (the (run [Accept_done False Accept_ok] (main True Accept_ok))))
       = Downstream
   \<and> ciphertext_socket (g_encode (main False Accept_ok)) = Downstream
   \<and> plaintext_socket (g_encode (main False Accept_ok)) = Upstream"
proof -
  let ?p = "\<lparr>g_encode = True, bridges = [connecting_bridge, new_bridge], session = Some 1,
             accepting = True\<rparr>"
  have r: "run [Accept_done False Accept_ok] (main True Accept_ok) = Some ?p"
    by (rule run_accept)
  have "ciphertext_socket (g_encode ?p) = ciphertext_socket (g_encode (main True Accept_ok))
        \<and> plaintext_socket (g_encode ?p) = plaintext_socket (g_encode (main True Accept_ok))"
    using sides_resolved_from_flag[of "main True Accept_ok" True Accept_ok
        "[Accept_done False Accept_ok]" ?p] r
    by blast
  then show ?thesis
    unfolding r
    by (simp add: ciphertext_socket_def plaintext_socket_def main_def accept_connections_def)
qed

end
